theory Spec2Isabelle
  imports Main "HOL-Library.Word" "HOL-Library.Sublist"
begin

section \<open>ScanGenius: the application controller of \<open>App\<close>\<close>

text \<open>
  The React component \<open>App\<close> keeps the whole session in \<open>useState\<close> cells and changes
  them from five handlers: \<open>handleFileSelect\<close>, \<open>startProcessing\<close>, \<open>handleAnalyze\<close>,
  \<open>handleDownloadImages\<close> and \<open>handleReset\<close>. The embedding below makes the cells one
  record, every handler a function from the record to the new record, and every outbound
  call (PDF service, Gemini service, console, alert) an entry of an effect list, in the
  order the handler issues them. The services themselves are not part of the component:
  they are a parameter, and each call either returns a value or throws.

  Modelling conventions.
  \<^item> A JavaScript string is the list of its UTF-16 code units.
  \<^item> Page numbers, \<open>totalPages\<close> and the fields of \<open>ProcessingConfig\<close> are integers (the
    data model of the specification and \<open>doc.numPages\<close> give integers); they are taken in
    the range where JavaScript numbers count exactly and print in plain decimal.
  \<^item> State updates are applied in program order: a functional update \<open>prev => ...\<close> sees
    the value left by the updates queued before it.
  \<^item> An awaited service call settles: it returns or throws. A service is a function of
    its arguments.
  \<^item> The zip library of \<open>handleDownloadImages\<close> is not part of the component either: its
    decoding and serialisation steps are parameters, and the handler returns what it hands
    to \<open>saveAs\<close>, or the error of the rejected promise.
\<close>

subsection \<open>Strings\<close>

type_synonym code_unit = "16 word"
type_synonym jsstring = "code_unit list"

definition lit :: "string \<Rightarrow> jsstring" where
  "lit s = map (\<lambda>c. of_nat (of_char c)) s"

text \<open>Decimal printing of a number inside a template literal (\<open>${pageNum}\<close>).\<close>

function string_of_nat :: "nat \<Rightarrow> jsstring" where
  "string_of_nat n =
     (if n < 10 then [48 + of_nat n]
      else string_of_nat (n div 10) @ [48 + of_nat (n mod 10)])"
  by pat_completeness auto
termination
  by (relation "measure (\<lambda>n. n)") auto

definition toString :: "int \<Rightarrow> jsstring" where
  "toString n = (if n < 0 then 45 # string_of_nat (nat (- n)) else string_of_nat (nat n))"

text \<open>
  \<open>String.prototype.trim\<close> removes ECMAScript white space and line terminators from both
  ends.
\<close>

definition isWhiteSpace :: "code_unit \<Rightarrow> bool" where
  "isWhiteSpace c \<longleftrightarrow>
     c \<in> {0x0009, 0x000A, 0x000B, 0x000C, 0x000D, 0x0020, 0x00A0, 0x1680,
          0x2000, 0x2001, 0x2002, 0x2003, 0x2004, 0x2005, 0x2006, 0x2007,
          0x2008, 0x2009, 0x200A, 0x2028, 0x2029, 0x202F, 0x205F, 0x3000, 0xFEFF}"

definition trim :: "jsstring \<Rightarrow> jsstring" where
  "trim s = rev (dropWhile isWhiteSpace (rev (dropWhile isWhiteSpace s)))"

text \<open>\<open>s.split(sep)\<close> for a one-unit separator, and \<open>s.includes(t)\<close>.\<close>

fun split_str :: "code_unit \<Rightarrow> jsstring \<Rightarrow> jsstring list" where
  "split_str sep [] = [[]]"
| "split_str sep (c # cs) =
     (if c = sep then [] # split_str sep cs
      else (case split_str sep cs of [] \<Rightarrow> [[c]] | s # ss \<Rightarrow> (c # s) # ss))"

definition includes_str :: "jsstring \<Rightarrow> jsstring \<Rightarrow> bool" where
  "includes_str s t = sublist t s"

text \<open>Array indexing: \<open>xs[i]\<close> is \<open>undefined\<close> (here \<open>None\<close>) out of range.\<close>

definition at_index :: "'a list \<Rightarrow> nat \<Rightarrow> 'a option" where
  "at_index xs i = (if i < length xs then Some (xs ! i) else None)"

subsection \<open>Data model (\<open>types.ts\<close>)\<close>

text \<open>The mode \<open>ALL\<close> is written \<open>ALL_MODE\<close>: \<open>ALL\<close> is the ASCII form of a quantifier.\<close>

record ExtractedPage =
  pageNumber :: int
  page_text :: jsstring
  imageUrl :: jsstring

record AnalysisResult =
  summary :: jsstring
  keyWords :: "jsstring list"
  topics :: "jsstring list"
  keyPoints :: "jsstring list"

datatype AppStatus = IDLE | LOADING_PDF | PROCESSING | COMPLETED | ERROR

datatype ProcessingMode = ALL_MODE | SINGLE | RANGE

record ProcessingConfig =
  mode :: ProcessingMode
  singlePage :: int
  rangeStart :: int
  rangeEnd :: int

subsection \<open>Collaborators and effects\<close>

record File =
  file_name :: jsstring
  file_bytes :: "8 word list"

record PdfDoc =
  numPages :: int
  handle :: nat

datatype js_error = Thrown jsstring

text \<open>
  The imported services. \<open>Inl\<close> is a rejected promise (a throw at the \<open>await\<close>), \<open>Inr\<close>
  the resolved value. \<open>renderPageAsImage\<close> receives the \<open>pdfDoc\<close> cell as it is, which is
  \<open>null\<close> until a document has been loaded.
\<close>

record Services =
  getDocument :: "File \<Rightarrow> js_error + PdfDoc"
  renderPageAsImage :: "PdfDoc option \<Rightarrow> int \<Rightarrow> js_error + jsstring"
  performOCR :: "jsstring \<Rightarrow> js_error + jsstring"
  analyzeText :: "jsstring \<Rightarrow> js_error + AnalysisResult"

datatype Effect =
    GetDocumentCall File
  | RenderCall "PdfDoc option" int
  | OcrCall jsstring
  | AnalyzeCall jsstring
  | ConsoleError "jsstring option" js_error
  | Alert jsstring

subsection \<open>Component state (\<open>useState\<close> cells of \<open>App\<close>)\<close>

record Progress =
  current :: nat
  total :: nat

datatype Tab = EditorTab | ImagesTab | AnalysisTab

record AppState =
  status :: AppStatus
  darkMode :: bool
  currentFile :: "File option"
  pdfDoc :: "PdfDoc option"
  totalPages :: int
  extractedPages :: "ExtractedPage list"
  processingProgress :: Progress
  activeTab :: Tab
  editorText :: jsstring
  analysis :: "AnalysisResult option"
  isAnalyzing :: bool
  showConfig :: bool

definition initialState :: AppState where
  "initialState =
     \<lparr>status = IDLE, darkMode = False, currentFile = None, pdfDoc = None, totalPages = 0,
      extractedPages = [], processingProgress = \<lparr>current = 0, total = 0\<rparr>,
      activeTab = EditorTab, editorText = [], analysis = None, isAnalyzing = False,
      showConfig = False\<rparr>"

subsection \<open>\<open>startProcessing\<close>\<close>

text \<open>The counting loop \<open>for (let i = lo; i <= hi; i++) pagesToProcess.push(i)\<close>.\<close>

function push_range :: "int \<Rightarrow> int \<Rightarrow> int list \<Rightarrow> int list" where
  "push_range i hi acc = (if i \<le> hi then push_range (i + 1) hi (acc @ [i]) else acc)"
  by pat_completeness auto
termination
  by (relation "measure (\<lambda>(i, hi, acc). nat (hi + 1 - i))") auto

definition pagesToProcess :: "ProcessingConfig \<Rightarrow> int \<Rightarrow> int list" where
  "pagesToProcess config tp =
     (if mode config = SINGLE then [singlePage config]
      else if mode config = RANGE then push_range (rangeStart config) (rangeEnd config) []
      else push_range 1 tp [])"

definition pageText :: "int \<Rightarrow> jsstring \<Rightarrow> jsstring" where
  "pageText pageNum txt =
     [10, 10] @ lit ''--- Page '' @ toString pageNum @ lit '' ---'' @ [10, 10] @ txt"

text \<open>
  One iteration of the page loop, the body of \<open>try\<close> with its \<open>catch\<close>: a throw from the
  renderer or from the OCR call leaves the state as it was and logs the error. The local
  \<open>fullTextAccumulator\<close> is written and never read; it is left out.
\<close>

definition processPage ::
  "Services \<Rightarrow> PdfDoc option \<Rightarrow> int list \<Rightarrow> nat \<Rightarrow> AppState \<times> Effect list
     \<Rightarrow> AppState \<times> Effect list" where
  "processPage svc doc pages i = (\<lambda>(st, tr).
     (let pageNum = pages ! i in
      case renderPageAsImage svc doc pageNum of
        Inl e \<Rightarrow>
          (st, tr @ [RenderCall doc pageNum,
                     ConsoleError (Some (lit ''Error processing page '' @ toString pageNum)) e])
      | Inr base64Image \<Rightarrow>
          (case performOCR svc base64Image of
             Inl e \<Rightarrow>
               (st, tr @ [RenderCall doc pageNum, OcrCall base64Image,
                          ConsoleError (Some (lit ''Error processing page '' @ toString pageNum)) e])
           | Inr txt \<Rightarrow>
               (let newPage = \<lparr>pageNumber = pageNum, page_text = txt, imageUrl = base64Image\<rparr>
                in (st\<lparr>extractedPages := extractedPages st @ [newPage],
                       editorText := editorText st @ pageText pageNum txt,
                       processingProgress := \<lparr>current = i + 1, total = length pages\<rparr>\<rparr>,
                    tr @ [RenderCall doc pageNum, OcrCall base64Image])))))"

text \<open>The loop \<open>for (let i = 0; i < pagesToProcess.length; i++)\<close>.\<close>

function pageLoop ::
  "Services \<Rightarrow> PdfDoc option \<Rightarrow> int list \<Rightarrow> nat \<Rightarrow> AppState \<times> Effect list
     \<Rightarrow> AppState \<times> Effect list" where
  "pageLoop svc doc pages i s =
     (if i < length pages then pageLoop svc doc pages (i + 1) (processPage svc doc pages i s)
      else s)"
  by pat_completeness auto
termination
  by (relation "measure (\<lambda>(svc, doc, pages, i, s). length pages - i)") auto

text \<open>The statements of \<open>startProcessing\<close> before the page loop (lines 65 to 81).\<close>

definition startProcessing_begin :: "ProcessingConfig \<Rightarrow> AppState \<Rightarrow> AppState" where
  "startProcessing_begin config st =
     st\<lparr>showConfig := False, status := PROCESSING, extractedPages := [], editorText := [],
        processingProgress :=
          \<lparr>current = 0, total = length (pagesToProcess config (totalPages st))\<rparr>\<rparr>"

definition startProcessing ::
  "Services \<Rightarrow> ProcessingConfig \<Rightarrow> AppState \<Rightarrow> AppState \<times> Effect list" where
  "startProcessing svc config st =
     (let pages = pagesToProcess config (totalPages st);
          (st', tr) = pageLoop svc (pdfDoc st) pages 0 (startProcessing_begin config st, [])
      in (st'\<lparr>status := COMPLETED\<rparr>, tr))"

text \<open>The page numbers handed to the renderer, in call order.\<close>

fun visited :: "Effect list \<Rightarrow> int list" where
  "visited [] = []"
| "visited (RenderCall d n # es) = n # visited es"
| "visited (e # es) = visited es"

subsection \<open>\<open>handleAnalyze\<close>\<close>

text \<open>
  \<open>handleAnalyze\<close> has one \<open>await\<close>. \<open>handleAnalyze_begin\<close> is the part that runs before
  it, \<open>handleAnalyze_settle\<close> the continuation (\<open>try\<close>, \<open>catch\<close> and \<open>finally\<close>) run with
  the settled promise; other handlers may run in between. \<open>handleAnalyze\<close> is the handler
  when nothing runs in between.
\<close>

definition handleAnalyze_begin :: "AppState \<Rightarrow> AppState" where
  "handleAnalyze_begin st = st\<lparr>isAnalyzing := True, activeTab := AnalysisTab\<rparr>"

definition handleAnalyze_settle ::
  "js_error + AnalysisResult \<Rightarrow> AppState \<Rightarrow> AppState \<times> Effect list" where
  "handleAnalyze_settle r st =
     (case r of
        Inr result \<Rightarrow> (st\<lparr>analysis := Some result, isAnalyzing := False\<rparr>, [])
      | Inl e \<Rightarrow> (st\<lparr>isAnalyzing := False\<rparr>, [ConsoleError None e]))"

definition handleAnalyze :: "Services \<Rightarrow> AppState \<Rightarrow> AppState \<times> Effect list" where
  "handleAnalyze svc st =
     (if trim (editorText st) = [] then (st, [])
      else (let (st', es) =
                  handleAnalyze_settle (analyzeText svc (editorText st)) (handleAnalyze_begin st)
            in (st', AnalyzeCall (editorText st) # es)))"

subsection \<open>\<open>handleFileSelect\<close> and \<open>handleReset\<close>\<close>

definition handleFileSelect :: "Services \<Rightarrow> File \<Rightarrow> AppState \<Rightarrow> AppState \<times> Effect list" where
  "handleFileSelect svc file st =
     (let st1 = st\<lparr>status := LOADING_PDF, currentFile := Some file\<rparr> in
      case getDocument svc file of
        Inr doc \<Rightarrow>
          (st1\<lparr>pdfDoc := Some doc, totalPages := numPages doc, showConfig := True,
               status := IDLE\<rparr>,
           [GetDocumentCall file])
      | Inl e \<Rightarrow>
          (st1\<lparr>status := ERROR\<rparr>,
           [GetDocumentCall file, ConsoleError None e,
            Alert (lit ''Failed to load PDF. Please try another file.'')]))"

definition handleReset :: "AppState \<Rightarrow> AppState" where
  "handleReset st =
     st\<lparr>currentFile := None, pdfDoc := None, extractedPages := [], editorText := [],
        analysis := None, status := IDLE\<rparr>"

subsection \<open>\<open>handleDownloadImages\<close>\<close>

text \<open>
  The zip object keeps its members in the order they were added. \<open>zip.file(name, data,
  {base64: true})\<close> records the data under the name, with the flag that tells the encoder
  to decode it from base64; a member added under a name already present takes the place
  of the earlier one.
\<close>

record ZipEntry =
  entry_data :: "jsstring option"
  entry_base64 :: bool

type_synonym JSZip = "(jsstring \<times> ZipEntry) list"

fun zip_file :: "jsstring \<Rightarrow> jsstring option \<Rightarrow> bool \<Rightarrow> JSZip \<Rightarrow> JSZip" where
  "zip_file name data b64 [] = [(name, \<lparr>entry_data = data, entry_base64 = b64\<rparr>)]"
| "zip_file name data b64 ((n, e) # files) =
     (if n = name then (name, \<lparr>entry_data = data, entry_base64 = b64\<rparr>) # files
      else (n, e) # zip_file name data b64 files)"

definition memberName :: "int \<Rightarrow> jsstring" where
  "memberName n = lit ''page_'' @ toString n @ lit ''.jpg''"

text \<open>The body of the \<open>forEach\<close>; \<open>imgData\<close> is \<open>undefined\<close> when the URL has no comma.\<close>

definition addPage :: "ExtractedPage \<Rightarrow> JSZip \<Rightarrow> JSZip" where
  "addPage page files =
     (let imgData = at_index (split_str 44 (imageUrl page)) 1
      in zip_file (memberName (pageNumber page)) imgData True files)"

text \<open>
  Modelled from the spec: the Archive Encoder (\<open>addMember(name, bytes, encoding);
  finalize() -> blob\<close>) is the imported zip library, whose code is not among the sources.
  Its two steps are parameters. \<open>base64Decode\<close> is what the encoder makes of the data of
  a member handed over as base64 (\<open>None\<close> is \<open>undefined\<close>); \<open>encodeBlob\<close> is the
  serialisation of the decoded members, in their order, into the blob. Either may fail
  (\<open>Inl\<close>).
\<close>

type_synonym bytes = "8 word list"

record Archiver =
  base64Decode :: "jsstring option \<Rightarrow> js_error + bytes"
  encodeBlob :: "(jsstring \<times> bytes) list \<Rightarrow> js_error + bytes"

definition entryBytes :: "Archiver \<Rightarrow> ZipEntry \<Rightarrow> js_error + bytes" where
  "entryBytes arch e =
     (if entry_base64 e then base64Decode arch (entry_data e)
      else Inr (case entry_data e of None \<Rightarrow> [] | Some d \<Rightarrow> map ucast d))"

fun decodeMembers :: "Archiver \<Rightarrow> JSZip \<Rightarrow> js_error + (jsstring \<times> bytes) list" where
  "decodeMembers arch [] = Inr []"
| "decodeMembers arch ((name, e) # files) =
     (case entryBytes arch e of
        Inl err \<Rightarrow> Inl err
      | Inr b \<Rightarrow>
          (case decodeMembers arch files of
             Inl err \<Rightarrow> Inl err
           | Inr members \<Rightarrow> Inr ((name, b) # members)))"

text \<open>
  Modelled from the spec: \<open>zip.generateAsync({type: 'blob'})\<close>, the encoder's
  \<open>finalize\<close>. The data of every member is decoded and the members are serialised; the
  promise rejects (\<open>Inl\<close>) when the data of a member is refused or the serialisation
  fails.
\<close>

definition generateAsync :: "Archiver \<Rightarrow> JSZip \<Rightarrow> js_error + bytes" where
  "generateAsync arch files =
     (case decodeMembers arch files of
        Inl err \<Rightarrow> Inl err
      | Inr members \<Rightarrow> encodeBlob arch members)"

text \<open>The prefix of the download name, \<open>${currentFile?.name.split('.')[0]}\<close>.\<close>

definition baseName :: "File option \<Rightarrow> jsstring" where
  "baseName f =
     (case f of
        None \<Rightarrow> lit ''undefined''
      | Some file \<Rightarrow>
          (case at_index (split_str 46 (file_name file)) 0 of
             None \<Rightarrow> lit ''undefined''
           | Some s \<Rightarrow> s))"

text \<open>
  The handler awaits \<open>generateAsync\<close> outside any \<open>try\<close>. When the promise rejects the
  handler ends there, with the error, and \<open>saveAs\<close> is not called (\<open>Inl\<close>); when it
  resolves, \<open>saveAs\<close> is called with the blob and the file name (\<open>Inr\<close>). No state cell is
  written.
\<close>

definition handleDownloadImages :: "Archiver \<Rightarrow> AppState \<Rightarrow> js_error + bytes \<times> jsstring" where
  "handleDownloadImages arch st =
     (let files = fold addPage (extractedPages st) [] in
      case generateAsync arch files of
        Inl err \<Rightarrow> Inl err
      | Inr content \<Rightarrow> Inr (content, baseName (currentFile st) @ lit ''_images.zip''))"

subsection \<open>Vocabulary of the properties\<close>

text \<open>
  A page succeeds when the renderer returns an image and the OCR call on that image returns
  a text. \<open>pageRecord\<close> is the record built for such a page, \<open>pageBlock\<close> the block
  appended to the editor text for it.
\<close>

definition pageOutcome :: "Services \<Rightarrow> PdfDoc option \<Rightarrow> int \<Rightarrow> (jsstring \<times> jsstring) option" where
  "pageOutcome svc doc n =
     (case renderPageAsImage svc doc n of
        Inl e \<Rightarrow> None
      | Inr img \<Rightarrow> (case performOCR svc img of Inl e \<Rightarrow> None | Inr txt \<Rightarrow> Some (img, txt)))"

definition succeeded :: "Services \<Rightarrow> PdfDoc option \<Rightarrow> int \<Rightarrow> bool" where
  "succeeded svc doc n \<longleftrightarrow> pageOutcome svc doc n \<noteq> None"

definition pageRecord :: "Services \<Rightarrow> PdfDoc option \<Rightarrow> int \<Rightarrow> ExtractedPage" where
  "pageRecord svc doc n =
     (case pageOutcome svc doc n of
        None \<Rightarrow> \<lparr>pageNumber = n, page_text = [], imageUrl = []\<rparr>
      | Some (img, txt) \<Rightarrow> \<lparr>pageNumber = n, page_text = txt, imageUrl = img\<rparr>)"

definition pageBlock :: "Services \<Rightarrow> PdfDoc option \<Rightarrow> int \<Rightarrow> jsstring" where
  "pageBlock svc doc n = pageText n (page_text (pageRecord svc doc n))"

text \<open>The member \<open>addPage\<close> records for a page.\<close>

definition pageEntry :: "ExtractedPage \<Rightarrow> jsstring \<times> ZipEntry" where
  "pageEntry page =
     (memberName (pageNumber page),
      \<lparr>entry_data = at_index (split_str 44 (imageUrl page)) 1, entry_base64 = True\<rparr>)"

text \<open>The marker line of page \<open>k\<close>, as \<open>pageText\<close> writes it.\<close>

definition pageMarker :: "int \<Rightarrow> jsstring" where
  "pageMarker k = lit ''--- Page '' @ toString k @ lit '' ---''"

text \<open>Decimal digits, and the number a digit string denotes.\<close>

definition isDigit :: "code_unit \<Rightarrow> bool" where
  "isDigit c \<longleftrightarrow> c \<in> {48, 49, 50, 51, 52, 53, 54, 55, 56, 57}"

definition nat_of_digits :: "jsstring \<Rightarrow> nat" where
  "nat_of_digits s = foldl (\<lambda>a c. 10 * a + unat (c - 48)) 0 s"

subsection \<open>A sample session\<close>

text \<open>
  A four-page document. Page 1 renders and is recognised, and its text is itself a line
  that looks like a page marker; the OCR call fails for page 2; the renderer fails for
  page 3; page 4 renders and is recognised. The renderer delivers PNG data URLs.
\<close>

definition sampleFile :: File where
  "sampleFile = \<lparr>file_name = lit ''scan.pdf'', file_bytes = [37, 80, 68, 70]\<rparr>"

definition sampleDoc :: PdfDoc where
  "sampleDoc = \<lparr>numPages = 4, handle = 1\<rparr>"

definition sampleAnalysis :: AnalysisResult where
  "sampleAnalysis = \<lparr>summary = lit ''memo'', keyWords = [lit ''a''], topics = [], keyPoints = []\<rparr>"

definition sampleServices :: Services where
  "sampleServices =
     \<lparr>getDocument = (\<lambda>f. Inr sampleDoc),
      renderPageAsImage = (\<lambda>doc n.
        if n = 3 then Inl (Thrown (lit ''render''))
        else Inr (lit ''data:image/png;base64,QUJ'' @ toString n)),
      performOCR = (\<lambda>img.
        if img = lit ''data:image/png;base64,QUJ1'' then Inr (lit ''--- Page 2 ---'')
        else if img = lit ''data:image/png;base64,QUJ4'' then Inr (lit ''four'')
        else Inl (Thrown (lit ''quota''))),
      analyzeText = (\<lambda>t. Inr sampleAnalysis)\<rparr>"

definition loadedState :: AppState where
  "loadedState = fst (handleFileSelect sampleServices sampleFile initialState)"

definition allConfig :: ProcessingConfig where
  "allConfig = \<lparr>mode = ALL_MODE, singlePage = 1, rangeStart = 1, rangeEnd = 3\<rparr>"

definition emptyRange :: ProcessingConfig where
  "emptyRange = \<lparr>mode = RANGE, singlePage = 1, rangeStart = 3, rangeEnd = 2\<rparr>"

text \<open>
  An archive encoder for the sample: it decodes the base64 strings \<open>QUJ1\<close> and \<open>QUJ4\<close>
  (the bytes of \<open>ABu\<close> and \<open>ABx\<close>), makes an empty member of \<open>undefined\<close>, and refuses
  every other string; its blob is the members' bytes one after the other. With
  \<open>truncatedServices\<close> the renderer delivers a payload of three characters (no base64
  string has that length), which this encoder refuses.
\<close>

definition sampleArchiver :: Archiver where
  "sampleArchiver =
     \<lparr>base64Decode = (\<lambda>d.
        if d = Some (lit ''QUJ1'') then Inr [65, 66, 117]
        else if d = Some (lit ''QUJ4'') then Inr [65, 66, 120]
        else if d = None then Inr []
        else Inl (Thrown (lit ''Invalid base64 input''))),
      encodeBlob = (\<lambda>members. Inr (concat (map snd members)))\<rparr>"

definition truncatedServices :: Services where
  "truncatedServices =
     sampleServices
       \<lparr>renderPageAsImage := (\<lambda>doc n. Inr (lit ''data:image/png;base64,QQ1'')),
        performOCR := (\<lambda>img. Inr (lit ''one''))\<rparr>"

definition singleConfig :: ProcessingConfig where
  "singleConfig = \<lparr>mode = SINGLE, singlePage = 1, rangeStart = 1, rangeEnd = 1\<rparr>"

text \<open>
  States of the sample session: \<open>completedState\<close> after a run over all pages;
  \<open>blankState\<close> after the user has replaced the text by blanks; \<open>staleState\<close> when, from
  \<open>completedState\<close>, an analysis was requested, the reset button was pressed while the
  request was in flight, and the request then resolved.
\<close>

definition completedState :: AppState where
  "completedState = fst (startProcessing sampleServices allConfig loadedState)"

definition blankState :: AppState where
  "blankState = completedState\<lparr>editorText := [32, 10, 9], analysis := Some sampleAnalysis\<rparr>"

definition staleState :: AppState where
  "staleState =
     fst (handleAnalyze_settle (analyzeText sampleServices (editorText completedState))
           (handleReset (handleAnalyze_begin completedState)))"

definition failingRange :: ProcessingConfig where
  "failingRange = \<lparr>mode = RANGE, singlePage = 1, rangeStart = 2, rangeEnd = 3\<rparr>"

section \<open>Properties\<close>

text \<open>
  The equations of the three loops are unconditional and recursive; they are unfolded by
  hand where needed.
\<close>

declare string_of_nat.simps [simp del] push_range.simps [simp del] pageLoop.simps [simp del]

lemma push_range_upto: "push_range i hi acc = acc @ [i..hi]"
proof (induction i hi acc rule: push_range.induct)
  case (1 i hi acc)
  show ?case
  proof (cases "i \<le> hi")
    case True
    then have "push_range i hi acc = push_range (i + 1) hi (acc @ [i])"
      by (subst push_range.simps) simp
    also have "\<dots> = (acc @ [i]) @ [i + 1..hi]"
      using True by (rule "1.IH")
    also have "\<dots> = acc @ [i..hi]"
      using True by (simp add: upto_rec1)
    finally show ?thesis .
  next
    case False
    then show ?thesis
      by (subst push_range.simps) simp
  qed
qed

subsection \<open>Decimal printing and trimming\<close>

lemma digit_unit: "k < 10 \<Longrightarrow> isDigit (48 + of_nat k)"
proof -
  assume "k < 10"
  then have "k = 0 \<or> k = 1 \<or> k = 2 \<or> k = 3 \<or> k = 4 \<or> k = 5 \<or> k = 6 \<or> k = 7 \<or> k = 8 \<or> k = 9"
    by presburger
  then show ?thesis
    by (elim disjE) (simp_all add: isDigit_def)
qed

lemma string_of_nat_digits: "c \<in> set (string_of_nat n) \<Longrightarrow> isDigit c"
proof (induction n rule: string_of_nat.induct)
  case (1 n)
  show ?case
  proof (cases "n < 10")
    case True
    then show ?thesis
      using "1.prems" by (subst (asm) string_of_nat.simps) (simp add: digit_unit)
  next
    case False
    then have "c \<in> set (string_of_nat (n div 10)) \<or> c = 48 + of_nat (n mod 10)"
      using "1.prems" by (subst (asm) string_of_nat.simps) auto
    then show ?thesis
      using False "1.IH" by (auto simp: digit_unit)
  qed
qed

lemma string_of_nat_not_Nil: "string_of_nat n \<noteq> []"
  by (subst string_of_nat.simps) simp

lemma nat_of_digits_string_of_nat: "nat_of_digits (string_of_nat n) = n"
proof (induction n rule: string_of_nat.induct)
  case (1 n)
  show ?case
  proof (cases "n < 10")
    case True
    then show ?thesis
      by (subst string_of_nat.simps) (simp add: nat_of_digits_def unat_of_nat)
  next
    case False
    then have "nat_of_digits (string_of_nat n) =
        10 * nat_of_digits (string_of_nat (n div 10)) + unat (48 + of_nat (n mod 10) - 48 :: code_unit)"
      by (subst string_of_nat.simps) (simp add: nat_of_digits_def)
    also have "\<dots> = 10 * (n div 10) + n mod 10"
      using False "1.IH" by (simp add: unat_of_nat)
    finally show ?thesis by simp
  qed
qed

lemma string_of_nat_inj: "string_of_nat n = string_of_nat m \<Longrightarrow> n = m"
  by (metis nat_of_digits_string_of_nat)

lemma toString_units: "c \<in> set (toString n) \<Longrightarrow> c = 45 \<or> isDigit c"
  by (auto simp: toString_def dest: string_of_nat_digits split: if_splits)

lemma toString_inj: "toString n = toString m \<Longrightarrow> n = m"
proof -
  assume eq: "toString n = toString m"
  have neg: "string_of_nat a \<noteq> 45 # s" "45 # s \<noteq> string_of_nat a" for a s
  proof -
    have "isDigit 45" if "string_of_nat a = 45 # s"
    proof -
      have "45 \<in> set (string_of_nat a)" using that by simp
      then show ?thesis by (rule string_of_nat_digits)
    qed
    then show "string_of_nat a \<noteq> 45 # s" "45 # s \<noteq> string_of_nat a"
      by (auto simp: isDigit_def)
  qed
  show ?thesis
  proof (cases "n < 0"; cases "m < 0")
    assume "n < 0" "m < 0"
    then have "nat (- n) = nat (- m)"
      using eq by (simp add: toString_def string_of_nat_inj)
    then show ?thesis using \<open>n < 0\<close> \<open>m < 0\<close> by simp
  next
    assume "n < 0" "\<not> m < 0"
    then show ?thesis using eq neg by (simp add: toString_def)
  next
    assume "\<not> n < 0" "m < 0"
    then show ?thesis using eq neg by (simp add: toString_def)
  next
    assume "\<not> n < 0" "\<not> m < 0"
    then have "nat n = nat m"
      using eq by (simp add: toString_def string_of_nat_inj)
    then show ?thesis using \<open>\<not> n < 0\<close> \<open>\<not> m < 0\<close> by simp
  qed
qed

lemma toString_examples:
  "toString 7 = lit ''7''" "toString 120 = lit ''120''" "toString (- 45) = lit ''-45''"
  by (simp_all add: toString_def string_of_nat.simps lit_def)

lemma trim_eq_Nil_iff: "trim s = [] \<longleftrightarrow> (\<forall>c \<in> set s. isWhiteSpace c)"
proof -
  let ?d = "dropWhile isWhiteSpace s"
  have "(\<forall>x \<in> set ?d. isWhiteSpace x) \<longleftrightarrow> ?d = []"
  proof
    assume all: "\<forall>x \<in> set ?d. isWhiteSpace x"
    show "?d = []"
    proof (rule ccontr)
      assume ne: "?d \<noteq> []"
      then have "\<not> isWhiteSpace (hd ?d)" by (rule hd_dropWhile)
      moreover have "hd ?d \<in> set ?d" using ne by (rule hd_in_set)
      ultimately show False using all by blast
    qed
  next
    assume h: "?d = []"
    show "\<forall>x \<in> set ?d. isWhiteSpace x" unfolding h by simp
  qed
  moreover have "trim s = [] \<longleftrightarrow> (\<forall>x \<in> set ?d. isWhiteSpace x)"
    by (simp add: trim_def)
  moreover have "?d = [] \<longleftrightarrow> (\<forall>c \<in> set s. isWhiteSpace c)"
    by (rule dropWhile_eq_Nil_conv)
  ultimately show ?thesis by blast
qed

subsection \<open>The page loop\<close>

lemma pageLoop_rule:
  assumes "Q i s"
    and "\<And>j s'. i \<le> j \<Longrightarrow> j < length pages \<Longrightarrow> Q j s' \<Longrightarrow> Q (Suc j) (processPage svc doc pages j s')"
    and "i \<le> length pages"
  shows "Q (length pages) (pageLoop svc doc pages i s)"
  using assms
proof (induction svc doc pages i s rule: pageLoop.induct)
  case (1 svc doc pages i s)
  show ?case
  proof (cases "i < length pages")
    case True
    have "Q (Suc i) (processPage svc doc pages i s)"
      using "1.prems"(1,2) True by simp
    then have "Q (length pages) (pageLoop svc doc pages (i + 1) (processPage svc doc pages i s))"
      using True "1.prems"(2) by (intro "1.IH") auto
    then show ?thesis
      using True by (subst pageLoop.simps) simp
  next
    case False
    then have "i = length pages" using "1.prems"(3) by simp
    then show ?thesis
      using "1.prems"(1) by (subst pageLoop.simps) simp
  qed
qed

lemma processPage_extractedPages:
  "extractedPages (fst (processPage svc doc pages j s)) =
     extractedPages (fst s) @ map (pageRecord svc doc) (filter (succeeded svc doc) [pages ! j])"
  by (cases s)
    (simp add: processPage_def Let_def pageRecord_def succeeded_def pageOutcome_def
      split: sum.splits)

lemma processPage_editorText:
  "editorText (fst (processPage svc doc pages j s)) =
     editorText (fst s) @ concat (map (pageBlock svc doc) (filter (succeeded svc doc) [pages ! j]))"
  by (cases s)
    (simp add: processPage_def Let_def pageBlock_def pageRecord_def succeeded_def pageOutcome_def
      split: sum.splits)

lemma visited_append: "visited (xs @ ys) = visited xs @ visited ys"
  by (induction xs rule: visited.induct) simp_all

lemma processPage_visited:
  "visited (snd (processPage svc doc pages j s)) = visited (snd s) @ [pages ! j]"
  by (cases s)
    (simp add: processPage_def Let_def visited_append split: sum.splits)

lemma processPage_frame:
  "status (fst (processPage svc doc pages j s)) = status (fst s)"
  "analysis (fst (processPage svc doc pages j s)) = analysis (fst s)"
  by (cases s; simp add: processPage_def Let_def split: sum.splits)+

lemma pageLoop_accum:
  fixes f :: "AppState \<times> Effect list \<Rightarrow> 'a list"
  assumes step: "\<And>j s'. j < length pages \<Longrightarrow>
      f (processPage svc doc pages j s') = f s' @ g (pages ! j)"
  shows "f (pageLoop svc doc pages 0 s) = f s @ concat (map g pages)"
proof -
  let ?Q = "\<lambda>(j::nat) (s'::AppState \<times> Effect list). f s' = f s @ concat (map g (take j pages))"
  have "?Q (length pages) (pageLoop svc doc pages 0 s)"
  proof (rule pageLoop_rule [where Q = ?Q])
    show "?Q 0 s" by simp
  next
    fix j s' assume "j < length pages" and "?Q j s'"
    then show "?Q (Suc j) (processPage svc doc pages j s')"
      by (simp add: step take_Suc_conv_app_nth)
  qed simp
  then show ?thesis by simp
qed

lemma pageLoop_preserve:
  fixes f :: "AppState \<times> Effect list \<Rightarrow> 'a"
  assumes step: "\<And>j s'. j < length pages \<Longrightarrow> f (processPage svc doc pages j s') = f s'"
  shows "f (pageLoop svc doc pages i s) = f s"
proof (cases "i \<le> length pages")
  case True
  let ?Q = "\<lambda>(j::nat) (s'::AppState \<times> Effect list). f s' = f s"
  have "?Q (length pages) (pageLoop svc doc pages i s)"
    by (rule pageLoop_rule [where Q = ?Q]) (simp_all add: step True)
  then show ?thesis .
next
  case False
  then show ?thesis by (subst pageLoop.simps) simp
qed

lemma pageLoop_extractedPages:
  "extractedPages (fst (pageLoop svc doc pages 0 s)) =
     extractedPages (fst s) @ map (pageRecord svc doc) (filter (succeeded svc doc) pages)"
proof -
  have "extractedPages (fst (pageLoop svc doc pages 0 s)) =
      extractedPages (fst s) @
      concat (map (\<lambda>n. map (pageRecord svc doc) (filter (succeeded svc doc) [n])) pages)"
    by (rule pageLoop_accum [where f = "\<lambda>s. extractedPages (fst s)"])
      (rule processPage_extractedPages)
  also have "concat (map (\<lambda>n. map (pageRecord svc doc) (filter (succeeded svc doc) [n])) pages) =
      map (pageRecord svc doc) (filter (succeeded svc doc) pages)"
    by (induction pages) simp_all
  finally show ?thesis .
qed

lemma pageLoop_editorText:
  "editorText (fst (pageLoop svc doc pages 0 s)) =
     editorText (fst s) @ concat (map (pageBlock svc doc) (filter (succeeded svc doc) pages))"
proof -
  have "editorText (fst (pageLoop svc doc pages 0 s)) =
      editorText (fst s) @
      concat (map (\<lambda>n. concat (map (pageBlock svc doc) (filter (succeeded svc doc) [n]))) pages)"
    by (rule pageLoop_accum [where f = "\<lambda>s. editorText (fst s)"])
      (rule processPage_editorText)
  also have "concat (map (\<lambda>n. concat (map (pageBlock svc doc) (filter (succeeded svc doc) [n]))) pages) =
      concat (map (pageBlock svc doc) (filter (succeeded svc doc) pages))"
    by (induction pages) simp_all
  finally show ?thesis .
qed

lemma pageLoop_visited:
  "visited (snd (pageLoop svc doc pages 0 s)) = visited (snd s) @ pages"
proof -
  have "visited (snd (pageLoop svc doc pages 0 s)) =
      visited (snd s) @ concat (map (\<lambda>n. [n]) pages)"
    by (rule pageLoop_accum [where f = "\<lambda>s. visited (snd s)"])
      (rule processPage_visited)
  then show ?thesis by simp
qed

lemma pageLoop_status: "status (fst (pageLoop svc doc pages i s)) = status (fst s)"
  by (rule pageLoop_preserve [where f = "\<lambda>s. status (fst s)"]) (rule processPage_frame)

lemma pageLoop_analysis: "analysis (fst (pageLoop svc doc pages i s)) = analysis (fst s)"
  by (rule pageLoop_preserve [where f = "\<lambda>s. analysis (fst s)"]) (rule processPage_frame)

lemma startProcessing_visited:
  "visited (snd (startProcessing svc config st)) = pagesToProcess config (totalPages st)"
  by (simp add: startProcessing_def Let_def split_beta pageLoop_visited)

lemma pagesToProcess_cases:
  "pagesToProcess config tp =
     (case mode config of
        ALL_MODE \<Rightarrow> [1..tp]
      | SINGLE \<Rightarrow> [singlePage config]
      | RANGE \<Rightarrow> [rangeStart config..rangeEnd config])"
  by (cases "mode config") (simp_all add: pagesToProcess_def push_range_upto)

subsection \<open>A whole run\<close>

lemma pageBlock_success:
  "renderPageAsImage svc doc n = Inr img \<Longrightarrow> performOCR svc img = Inr txt \<Longrightarrow>
     pageBlock svc doc n = [10, 10] @ lit ''--- Page '' @ toString n @ lit '' ---'' @ [10, 10] @ txt"
  by (simp add: pageBlock_def pageRecord_def pageOutcome_def pageText_def)

lemma succeeded_iff:
  "succeeded svc doc n \<longleftrightarrow>
     (\<exists>img txt. renderPageAsImage svc doc n = Inr img \<and> performOCR svc img = Inr txt)"
  by (auto simp: succeeded_def pageOutcome_def split: sum.splits)

lemma sorted_pagesToProcess: "sorted_wrt (<) (pagesToProcess config tp)"
  by (cases "mode config") (simp_all add: pagesToProcess_cases)

lemma startProcessing_extractedPages:
  "extractedPages (fst (startProcessing svc config st)) =
     map (pageRecord svc (pdfDoc st))
       (filter (succeeded svc (pdfDoc st)) (pagesToProcess config (totalPages st)))"
  by (simp add: startProcessing_def Let_def split_beta pageLoop_extractedPages
      startProcessing_begin_def)

lemma startProcessing_editorText:
  "editorText (fst (startProcessing svc config st)) =
     concat (map (pageBlock svc (pdfDoc st))
       (filter (succeeded svc (pdfDoc st)) (pagesToProcess config (totalPages st))))"
  by (simp add: startProcessing_def Let_def split_beta pageLoop_editorText
      startProcessing_begin_def)

lemma startProcessing_status: "status (fst (startProcessing svc config st)) = COMPLETED"
  by (simp add: startProcessing_def Let_def split_beta)

lemma startProcessing_analysis: "analysis (fst (startProcessing svc config st)) = analysis st"
  by (simp add: startProcessing_def Let_def split_beta pageLoop_analysis startProcessing_begin_def)

lemma pageLoop_Nil: "pageLoop svc doc [] 0 s = s"
  by (subst pageLoop.simps) simp

subsection \<open>File selection\<close>

lemma handleFileSelect_frame:
  "extractedPages (fst (handleFileSelect svc file st)) = extractedPages st"
  "editorText (fst (handleFileSelect svc file st)) = editorText st"
  "analysis (fst (handleFileSelect svc file st)) = analysis st"
  "processingProgress (fst (handleFileSelect svc file st)) = processingProgress st"
  by (simp_all add: handleFileSelect_def Let_def split: sum.splits)

text \<open>
  A file selected first, or right after a reset, finds no page, no text and no analysis
  result.
\<close>

lemma file_select_first:
  "extractedPages (fst (handleFileSelect svc file initialState)) = []"
  "editorText (fst (handleFileSelect svc file initialState)) = []"
  "analysis (fst (handleFileSelect svc file initialState)) = None"
  by (simp_all add: handleFileSelect_frame initialState_def)

lemma file_select_after_reset:
  "extractedPages (fst (handleFileSelect svc file (handleReset st))) = []"
  "editorText (fst (handleFileSelect svc file (handleReset st))) = []"
  "analysis (fst (handleFileSelect svc file (handleReset st))) = None"
  by (simp_all add: handleFileSelect_frame handleReset_def)

subsection \<open>Progress counters\<close>

lemma processPage_progress:
  "processingProgress (fst (processPage svc doc pages i s)) =
     (if succeeded svc doc (pages ! i) then \<lparr>current = i + 1, total = length pages\<rparr>
      else processingProgress (fst s))"
  by (cases s)
    (simp add: processPage_def Let_def succeeded_def pageOutcome_def split: sum.splits)

lemma pageLoop_progress:
  assumes "total (processingProgress (fst s)) = length pages"
    and "current (processingProgress (fst s)) = 0"
  shows "processingProgress (fst (pageLoop svc doc pages 0 s)) =
     \<lparr>current = length (dropWhile (\<lambda>n. \<not> succeeded svc doc n) (rev pages)),
      total = length pages\<rparr>"
proof -
  let ?Q = "\<lambda>(j::nat) (s'::AppState \<times> Effect list). processingProgress (fst s') =
     \<lparr>current = length (dropWhile (\<lambda>n. \<not> succeeded svc doc n) (rev (take j pages))),
      total = length pages\<rparr>"
  have "?Q (length pages) (pageLoop svc doc pages 0 s)"
  proof (rule pageLoop_rule [where Q = ?Q])
    show "?Q 0 s" using assms by simp
  next
    fix j s' assume "j < length pages" and "?Q j s'"
    then show "?Q (Suc j) (processPage svc doc pages j s')"
      by (simp add: processPage_progress take_Suc_conv_app_nth)
  qed simp
  then show ?thesis by simp
qed

subsection \<open>The archive\<close>

lemma split_str_no_sep: "sep \<notin> set s \<Longrightarrow> split_str sep s = [s]"
  by (induction s) auto

lemma split_str_one_sep:
  "sep \<notin> set meta \<Longrightarrow> sep \<notin> set payload \<Longrightarrow>
     split_str sep (meta @ sep # payload) = [meta, payload]"
  by (induction meta) (auto simp: split_str_no_sep)

lemma memberName_inj: "memberName n = memberName m \<Longrightarrow> n = m"
  by (simp add: memberName_def toString_inj)

lemma zip_file_fresh:
  "name \<notin> fst ` set files \<Longrightarrow>
     zip_file name data b64 files = files @ [(name, \<lparr>entry_data = data, entry_base64 = b64\<rparr>)]"
  by (induction files) auto

lemma addPage_fresh:
  "memberName (pageNumber page) \<notin> fst ` set files \<Longrightarrow>
     addPage page files = files @ [pageEntry page]"
  by (simp add: addPage_def pageEntry_def Let_def zip_file_fresh)

lemma fold_addPage_distinct:
  "distinct (map pageNumber pages) \<Longrightarrow>
   \<forall>p \<in> set pages. memberName (pageNumber p) \<notin> fst ` set files \<Longrightarrow>
     fold addPage pages files = files @ map pageEntry pages"
proof (induction pages arbitrary: files)
  case Nil
  then show ?case by simp
next
  case (Cons q qs)
  have q: "addPage q files = files @ [pageEntry q]"
    using Cons.prems(2) by (simp add: addPage_fresh)
  have "\<forall>p \<in> set qs. memberName (pageNumber p) \<notin> fst ` set (files @ [pageEntry q])"
  proof
    fix p assume p: "p \<in> set qs"
    then have "pageNumber p \<in> pageNumber ` set qs" by (rule imageI)
    moreover have "pageNumber q \<notin> pageNumber ` set qs"
      using Cons.prems(1) by simp
    ultimately have "pageNumber p \<noteq> pageNumber q" by metis
    then have "memberName (pageNumber p) \<noteq> memberName (pageNumber q)"
      by (auto dest: memberName_inj)
    then show "memberName (pageNumber p) \<notin> fst ` set (files @ [pageEntry q])"
      using Cons.prems(2) p by (auto simp: pageEntry_def)
  qed
  then have "fold addPage qs (files @ [pageEntry q]) = (files @ [pageEntry q]) @ map pageEntry qs"
    using Cons.prems(1) by (intro Cons.IH) simp_all
  then show ?case by (simp add: q)
qed

lemma decodeMembers_Inr:
  "decodeMembers arch files = Inr members \<Longrightarrow>
     list_all2 (\<lambda>(n, e) (name, b). name = n \<and> entryBytes arch e = Inr b) files members"
proof (induction files arbitrary: members)
  case Nil
  then show ?case by simp
next
  case (Cons f fs)
  obtain n e where f: "f = (n, e)" by (cases f)
  from Cons.prems obtain b ms where
    "entryBytes arch e = Inr b" "decodeMembers arch fs = Inr ms" "members = (n, b) # ms"
    by (auto simp: f split: sum.splits)
  then show ?case using Cons.IH [of ms] by (simp add: f)
qed

lemma decodeMembers_refused:
  "(n, e) \<in> set files \<Longrightarrow> entryBytes arch e = Inl err \<Longrightarrow>
     \<exists>err'. decodeMembers arch files = Inl err'"
proof (induction files)
  case Nil
  then show ?case by simp
next
  case (Cons f fs)
  obtain m d where f: "f = (m, d)" by (cases f)
  show ?case
  proof (cases "entryBytes arch d")
    case (Inl a)
    then show ?thesis by (simp add: f)
  next
    case (Inr b)
    then have "(n, e) \<in> set fs" using Cons.prems by (auto simp: f)
    then obtain err' where "decodeMembers arch fs = Inl err'"
      using Cons.IH Cons.prems(2) by blast
    then show ?thesis by (simp add: f Inr)
  qed
qed

lemma decodeMembers_accepted:
  "\<forall>f \<in> set files. \<exists>b. entryBytes arch (snd f) = Inr b \<Longrightarrow>
     \<exists>members. decodeMembers arch files = Inr members"
proof (induction files)
  case Nil
  then show ?case by simp
next
  case (Cons f fs)
  obtain m d where f: "f = (m, d)" by (cases f)
  from Cons.prems obtain b where b: "entryBytes arch d = Inr b" by (auto simp: f)
  from Cons obtain ms where "decodeMembers arch fs = Inr ms" by auto
  then show ?case by (simp add: f b)
qed

lemma pageNumber_pageRecord: "pageNumber (pageRecord svc doc n) = n"
  by (simp add: pageRecord_def split: option.splits prod.splits)

lemma distinct_pagesToProcess: "distinct (pagesToProcess config tp)"
  using sorted_pagesToProcess [of config tp] by (simp add: strict_sorted_iff)

lemma startProcessing_pageNumbers:
  "map pageNumber (extractedPages (fst (startProcessing svc config st))) =
     filter (succeeded svc (pdfDoc st)) (pagesToProcess config (totalPages st))"
  by (simp add: startProcessing_extractedPages comp_def pageNumber_pageRecord)

lemma startProcessing_distinct:
  "distinct (map pageNumber (extractedPages (fst (startProcessing svc config st))))"
  by (simp add: startProcessing_pageNumbers distinct_pagesToProcess)

lemma entryBytes_pageEntry:
  "entryBytes arch (snd (pageEntry page)) =
     base64Decode arch (at_index (split_str 44 (imageUrl page)) 1)"
  by (simp add: entryBytes_def pageEntry_def)

lemma download_members:
  assumes "distinct (map pageNumber (extractedPages st))"
  shows "handleDownloadImages arch st =
     (case decodeMembers arch (map pageEntry (extractedPages st)) of
        Inl err \<Rightarrow> Inl err
      | Inr members \<Rightarrow>
          (case encodeBlob arch members of
             Inl err \<Rightarrow> Inl err
           | Inr content \<Rightarrow> Inr (content, baseName (currentFile st) @ lit ''_images.zip'')))"
proof -
  have "fold addPage (extractedPages st) [] = [] @ map pageEntry (extractedPages st)"
    using assms by (intro fold_addPage_distinct) simp_all
  then show ?thesis
    by (simp add: handleDownloadImages_def generateAsync_def Let_def split: sum.splits)
qed

lemma members_of_pages:
  "decodeMembers arch (map pageEntry pages) = Inr members \<Longrightarrow>
     list_all2 (\<lambda>page (name, b).
         name = lit ''page_'' @ toString (pageNumber page) @ lit ''.jpg'' \<and>
         base64Decode arch (at_index (split_str 44 (imageUrl page)) 1) = Inr b)
       pages members"
proof -
  assume "decodeMembers arch (map pageEntry pages) = Inr members"
  then have "list_all2 (\<lambda>(n, e) (name, b). name = n \<and> entryBytes arch e = Inr b)
      (map pageEntry pages) members"
    by (rule decodeMembers_Inr)
  then have "list_all2 (\<lambda>page (name, b). name = fst (pageEntry page) \<and>
      entryBytes arch (snd (pageEntry page)) = Inr b) pages members"
    by (simp add: list_all2_map1 case_prod_unfold)
  then show ?thesis
    by (simp add: entryBytes_pageEntry) (simp add: pageEntry_def memberName_def)
qed

lemma member_names:
  "list_all2 (\<lambda>page (name, b). name = f page \<and> Q page b) pages members \<Longrightarrow>
     map fst members = map f pages"
  by (induction pages members rule: list_all2_induct) auto


subsection \<open>Marker lines inside the editor text\<close>

text \<open>
  A marker line holds no line feed, so an occurrence of it in the editor text lies inside
  one line: a marker line written by the loop or a line of a recognised text.
\<close>

lemma sublist_across_separator:
  assumes "c \<notin> set m" and "m \<noteq> []"
  shows "sublist m (xs @ c # ys) \<longleftrightarrow> sublist m xs \<or> sublist m ys"
proof
  assume "sublist m (xs @ c # ys)"
  then consider "sublist m xs" | "sublist m (c # ys)"
    | xs1 xs2 where "m = xs1 @ xs2" "suffix xs1 xs" "prefix xs2 (c # ys)"
    by (auto simp: sublist_append)
  then show "sublist m xs \<or> sublist m ys"
  proof cases
    case 1
    then show ?thesis by simp
  next
    case 2
    then have "prefix m (c # ys) \<or> sublist m ys" by (simp add: sublist_Cons_right)
    moreover have "\<not> prefix m (c # ys)"
      using assms by (cases m) auto
    ultimately show ?thesis by simp
  next
    case 3
    show ?thesis
    proof (cases xs2)
      case Nil
      then show ?thesis using 3 by auto
    next
      case (Cons a as)
      then have "a = c" using 3(3) by simp
      then show ?thesis using 3(1) Cons assms(1) by simp
    qed
  qed
next
  assume "sublist m xs \<or> sublist m ys"
  then show "sublist m (xs @ c # ys)"
    by (auto simp: sublist_append sublist_Cons_right)
qed

lemma unique_unit:
  assumes "c \<notin> set a" and "c \<notin> set b" and "x @ c # y = a @ c # b"
  shows "x = a \<and> y = b"
  using assms
proof (induction x arbitrary: a)
  case Nil
  then show ?case by (cases a) auto
next
  case (Cons u us)
  show ?case
  proof (cases a)
    case Nil
    then show ?thesis using Cons.prems by auto
  next
    case (Cons v vs)
    then show ?thesis using Cons.IH [of vs] Cons.prems by auto
  qed
qed

lemma isDigit_simps: "\<not> isDigit 10" "\<not> isDigit 32" "\<not> isDigit 80"
  by (simp_all add: isDigit_def)

lemma toString_plain: "10 \<notin> set (toString n)" "32 \<notin> set (toString n)" "80 \<notin> set (toString n)"
  using toString_units [of _ n] isDigit_simps by fastforce+

lemma pageMarker_no_newline: "10 \<notin> set (pageMarker k)"
  by (simp add: pageMarker_def lit_def toString_plain)

lemma pageMarker_not_Nil: "pageMarker k \<noteq> []"
  by (simp add: pageMarker_def lit_def)

lemma pageMarker_in_pageMarker: "sublist (pageMarker k) (pageMarker n) \<Longrightarrow> k = n"
proof -
  assume "sublist (pageMarker k) (pageMarker n)"
  then obtain ps ss where eq: "pageMarker n = ps @ pageMarker k @ ss"
    by (auto simp: sublist_def)
  let ?tail = "\<lambda>j r. [97, 103, 101, 32] @ toString j @ [32, 45, 45, 45] @ (r :: jsstring)"
  have shape: "pageMarker j @ r = [45, 45, 45, 32] @ 80 # ?tail j r" for j r
    by (simp add: pageMarker_def lit_def)
  have "(ps @ [45, 45, 45, 32]) @ 80 # ?tail k ss = [45, 45, 45, 32] @ 80 # ?tail n []"
    using eq shape [of n "[]"] shape [of k ss] by simp
  then have "ps @ [45, 45, 45, 32] = [45, 45, 45, 32] \<and> ?tail k ss = ?tail n []"
    by (rule unique_unit [rotated 2]) (simp_all add: toString_plain)
  then have "toString k @ 32 # ([45, 45, 45] @ ss) = toString n @ 32 # [45, 45, 45]"
    by simp
  then have "toString k = toString n \<and> [45, 45, 45] @ ss = [45, 45, 45]"
    by (rule unique_unit [rotated 2]) (simp_all add: toString_plain)
  then show "k = n" by (simp add: toString_inj)
qed

lemma pageText_shape: "pageText n txt = [10, 10] @ pageMarker n @ [10, 10] @ txt"
  by (simp add: pageText_def pageMarker_def)


lemma marker_in_blocks:
  assumes "sublist (pageMarker k) (pre @ concat (map (\<lambda>n. pageText n (f n)) ns))"
  shows "sublist (pageMarker k) pre \<or> (\<exists>n \<in> set ns. n = k \<or> sublist (pageMarker k) (f n))"
  using assms
proof (induction ns arbitrary: pre)
  case Nil
  then show ?case by simp
next
  case (Cons n ns)
  let ?m = "pageMarker k"
  let ?rest = "concat (map (\<lambda>n. pageText n (f n)) ns)"
  note sep = sublist_across_separator [OF pageMarker_no_newline pageMarker_not_Nil]
  have "pre @ concat (map (\<lambda>n. pageText n (f n)) (n # ns)) =
      pre @ 10 # ([] @ 10 # (pageMarker n @ 10 # ([] @ 10 # (f n @ ?rest))))"
    by (simp add: pageText_shape)
  then have "sublist ?m (pre @ 10 # ([] @ 10 # (pageMarker n @ 10 # ([] @ 10 # (f n @ ?rest)))))"
    using Cons.prems by simp
  then have "sublist ?m pre \<or> sublist ?m (pageMarker n) \<or> sublist ?m (f n @ ?rest)"
    unfolding sep [of k] by (simp add: pageMarker_not_Nil)
  then consider "sublist ?m pre" | "sublist ?m (pageMarker n)" | "sublist ?m (f n @ ?rest)"
    by blast
  then show ?case
  proof cases
    case 1
    then show ?thesis by simp
  next
    case 2
    then have "k = n" by (rule pageMarker_in_pageMarker)
    then show ?thesis by simp
  next
    case 3
    then have "sublist ?m (f n) \<or> (\<exists>n \<in> set ns. n = k \<or> sublist ?m (f n))"
      by (rule Cons.IH)
    then show ?thesis by auto
  qed
qed

lemma recognised_text:
  "renderPageAsImage svc doc n = Inr img \<Longrightarrow> performOCR svc img = Inr t \<Longrightarrow>
     page_text (pageRecord svc doc n) = t"
  by (simp add: pageRecord_def pageOutcome_def)

subsection \<open>The sample session, evaluated\<close>

lemmas sample_defs = sampleFile_def sampleDoc_def sampleAnalysis_def sampleServices_def
  loadedState_def allConfig_def emptyRange_def failingRange_def initialState_def
  handleFileSelect_def

lemma pages_all: "pagesToProcess allConfig (totalPages loadedState) = [1, 2, 3, 4]"
  by (simp add: sample_defs pagesToProcess_def push_range.simps)

lemmas run_defs = startProcessing_def startProcessing_begin_def pagesToProcess_def
  push_range.simps pageLoop.simps processPage_def toString_def string_of_nat.simps lit_def
  Let_def

lemma completedState_eq:
  "completedState =
     \<lparr>status = COMPLETED, darkMode = False, currentFile = Some sampleFile,
      pdfDoc = Some sampleDoc, totalPages = 4,
      extractedPages =
        [\<lparr>pageNumber = 1, page_text = lit ''--- Page 2 ---'',
          imageUrl = lit ''data:image/png;base64,QUJ1''\<rparr>,
         \<lparr>pageNumber = 4, page_text = lit ''four'',
          imageUrl = lit ''data:image/png;base64,QUJ4''\<rparr>],
      processingProgress = \<lparr>current = 4, total = 4\<rparr>, activeTab = EditorTab,
      editorText =
        [10, 10] @ lit ''--- Page 1 ---'' @ [10, 10] @ lit ''--- Page 2 ---'' @
        [10, 10] @ lit ''--- Page 4 ---'' @ [10, 10] @ lit ''four'',
      analysis = None, isAnalyzing = False, showConfig = False\<rparr>"
  unfolding completedState_def
  by (simp add: sample_defs run_defs pageText_def)

lemma completedState_effects:
  "snd (startProcessing sampleServices allConfig loadedState) =
     [RenderCall (Some sampleDoc) 1, OcrCall (lit ''data:image/png;base64,QUJ1''),
      RenderCall (Some sampleDoc) 2, OcrCall (lit ''data:image/png;base64,QUJ2''),
      ConsoleError (Some (lit ''Error processing page 2'')) (Thrown (lit ''quota'')),
      RenderCall (Some sampleDoc) 3,
      ConsoleError (Some (lit ''Error processing page 3'')) (Thrown (lit ''render'')),
      RenderCall (Some sampleDoc) 4, OcrCall (lit ''data:image/png;base64,QUJ4'')]"
  by (simp add: sample_defs run_defs pageText_def)

lemma sample_outcomes:
  "renderPageAsImage sampleServices (pdfDoc loadedState) 1 = Inr (lit ''data:image/png;base64,QUJ1'')"
  "renderPageAsImage sampleServices (pdfDoc loadedState) 2 = Inr (lit ''data:image/png;base64,QUJ2'')"
  "renderPageAsImage sampleServices (pdfDoc loadedState) 3 = Inl (Thrown (lit ''render''))"
  "renderPageAsImage sampleServices (pdfDoc loadedState) 4 = Inr (lit ''data:image/png;base64,QUJ4'')"
  "performOCR sampleServices (lit ''data:image/png;base64,QUJ1'') = Inr (lit ''--- Page 2 ---'')"
  "performOCR sampleServices (lit ''data:image/png;base64,QUJ2'') = Inl (Thrown (lit ''quota''))"
  "performOCR sampleServices (lit ''data:image/png;base64,QUJ4'') = Inr (lit ''four'')"
  by (simp_all add: sample_defs toString_def string_of_nat.simps lit_def)

lemma sample_succeeded:
  "succeeded sampleServices (pdfDoc loadedState) 1"
  "\<not> succeeded sampleServices (pdfDoc loadedState) 2"
  "\<not> succeeded sampleServices (pdfDoc loadedState) 3"
  "succeeded sampleServices (pdfDoc loadedState) 4"
  by (simp_all add: succeeded_def pageOutcome_def sample_outcomes)

lemma sample_pageMarkers:
  "pageMarker 2 = lit ''--- Page 2 ---''" "pageMarker 3 = lit ''--- Page 3 ---''"
  by (simp_all add: pageMarker_def toString_def string_of_nat.simps lit_def)

lemma sample_download:
  "handleDownloadImages sampleArchiver completedState =
     Inr ([65, 66, 117, 65, 66, 120], lit ''scan_images.zip'')"
  by (simp add: handleDownloadImages_def generateAsync_def completedState_eq addPage_def
      memberName_def toString_def string_of_nat.simps entryBytes_def sampleArchiver_def
      baseName_def sampleFile_def at_index_def lit_def Let_def)

lemma truncated_pages:
  "extractedPages (fst (startProcessing truncatedServices singleConfig loadedState)) =
     [\<lparr>pageNumber = 1, page_text = lit ''one'',
       imageUrl = lit ''data:image/png;base64,QQ1''\<rparr>]"
  by (simp add: truncatedServices_def singleConfig_def sample_defs run_defs)


lemma pending_analysis_request:
  "trim (editorText completedState) \<noteq> []"
  by (simp add: completedState_eq trim_def isWhiteSpace_def lit_def)

section \<open>The claims\<close>

text \<open>
  C1. The page numbers a run visits (the pages handed to the renderer, in call order) are
  fixed by the configuration: in mode ALL they are 1 to \<open>totalPages\<close> in ascending
  order, in mode SINGLE the one configured page, in mode RANGE \<open>rangeStart\<close> to
  \<open>rangeEnd\<close> in ascending order; a range with \<open>rangeStart > rangeEnd\<close> visits nothing
  and extracts no page. \<open>[a..b]\<close> is the ascending list of the integers from \<open>a\<close> to \<open>b\<close>,
  both included, empty when \<open>b < a\<close>.
\<close>

theorem visited_sequence:
  "visited (snd (startProcessing svc config st)) =
     (case mode config of
        ALL_MODE \<Rightarrow> [1..totalPages st]
      | SINGLE \<Rightarrow> [singlePage config]
      | RANGE \<Rightarrow> [rangeStart config..rangeEnd config])
   \<and> (mode config = RANGE \<and> rangeEnd config < rangeStart config \<longrightarrow>
        visited (snd (startProcessing svc config st)) = []
        \<and> extractedPages (fst (startProcessing svc config st)) = [])
   \<and> sorted_wrt (<) (visited (snd (startProcessing svc config st)))"
proof -
  have v: "visited (snd (startProcessing svc config st)) = pagesToProcess config (totalPages st)"
    by (rule startProcessing_visited)
  have e: "pagesToProcess config (totalPages st) = [] \<Longrightarrow>
      extractedPages (fst (startProcessing svc config st)) = []"
    by (simp add: startProcessing_def Let_def split_beta pageLoop_extractedPages
        startProcessing_begin_def)
  have s: "sorted_wrt (<) (pagesToProcess config (totalPages st))"
    by (cases "mode config") (simp_all add: pagesToProcess_cases)
  show ?thesis
    using e s by (cases "mode config") (simp_all add: v pagesToProcess_cases)
qed

text \<open>The theorem at the sample document with the range 3 to 2.\<close>

theorem visited_sequence_witness:
  "mode emptyRange = RANGE \<and> rangeEnd emptyRange < rangeStart emptyRange
   \<and> visited (snd (startProcessing sampleServices emptyRange loadedState)) = []
   \<and> extractedPages (fst (startProcessing sampleServices emptyRange loadedState)) = []"
  using visited_sequence [of sampleServices emptyRange loadedState]
  by (simp add: emptyRange_def)

text \<open>
  C2, as stated, fails: in the sample run the OCR call for page 2 throws, yet the editor
  text contains \<open>--- Page 2 ---\<close>, because the recognised text of page 1 is that very
  line and is appended as it is.
\<close>

theorem failed_page_marker_counterexample:
  "2 \<in> set (visited (snd (startProcessing sampleServices allConfig loadedState)))
   \<and> \<not> succeeded sampleServices (pdfDoc loadedState) 2
   \<and> performOCR sampleServices (lit ''data:image/png;base64,QUJ2'') = Inl (Thrown (lit ''quota''))
   \<and> includes_str (editorText (fst (startProcessing sampleServices allConfig loadedState)))
        (lit ''--- Page 2 ---'')"
proof -
  have "includes_str (editorText completedState) (lit ''--- Page 2 ---'')"
    by (simp add: completedState_eq includes_str_def lit_def sublist_Cons_right)
  then show ?thesis
    by (simp add: startProcessing_visited pages_all sample_succeeded sample_outcomes
        completedState_def)
qed

text \<open>
  C2, amended. For a page \<open>k\<close> of the visited sequence whose render or OCR call fails:
  no extracted page has number \<open>k\<close>, the extracted pages are exactly the other pages that
  succeeded, and the editor text is the concatenation of their blocks alone (no block is
  appended for \<open>k\<close>); the editor text contains the line \<open>--- Page k ---\<close> only if the
  recognised text of some page of the run contains it; every page of the sequence is
  handed to the renderer, those after \<open>k\<close> included, and the run ends COMPLETED.
\<close>

theorem failed_page_is_skipped:
  assumes "k \<in> set (pagesToProcess config (totalPages st))"
    and "\<not> succeeded svc (pdfDoc st) k"
  shows "(\<forall>page \<in> set (extractedPages (fst (startProcessing svc config st))). pageNumber page \<noteq> k)
    \<and> map pageNumber (extractedPages (fst (startProcessing svc config st))) =
        filter (\<lambda>n. n \<noteq> k \<and> succeeded svc (pdfDoc st) n) (pagesToProcess config (totalPages st))
    \<and> editorText (fst (startProcessing svc config st)) =
        concat (map (pageBlock svc (pdfDoc st))
          (filter (\<lambda>n. n \<noteq> k \<and> succeeded svc (pdfDoc st) n)
            (pagesToProcess config (totalPages st))))
    \<and> ((\<forall>n img t. n \<in> set (pagesToProcess config (totalPages st)) \<and>
           renderPageAsImage svc (pdfDoc st) n = Inr img \<and> performOCR svc img = Inr t \<longrightarrow>
           \<not> includes_str t (pageMarker k)) \<longrightarrow>
        \<not> includes_str (editorText (fst (startProcessing svc config st))) (pageMarker k))
    \<and> visited (snd (startProcessing svc config st)) = pagesToProcess config (totalPages st)
    \<and> status (fst (startProcessing svc config st)) = COMPLETED"
proof -
  let ?pages = "pagesToProcess config (totalPages st)"
  let ?doc = "pdfDoc st"
  let ?R = "startProcessing svc config st"
  have f: "filter (succeeded svc ?doc) ?pages = filter (\<lambda>n. n \<noteq> k \<and> succeeded svc ?doc n) ?pages"
    using assms(2) by (intro filter_cong) auto
  have nums: "map pageNumber (extractedPages (fst ?R)) = filter (succeeded svc ?doc) ?pages"
    by (rule startProcessing_pageNumbers)
  have 1: "\<forall>page \<in> set (extractedPages (fst ?R)). pageNumber page \<noteq> k"
  proof
    fix page assume "page \<in> set (extractedPages (fst ?R))"
    then have "pageNumber page \<in> set (map pageNumber (extractedPages (fst ?R)))" by simp
    then have "succeeded svc ?doc (pageNumber page)" unfolding nums by simp
    then show "pageNumber page \<noteq> k" using assms(2) by auto
  qed
  have 4: "\<not> includes_str (editorText (fst ?R)) (pageMarker k)"
    if clean: "\<forall>n img t. n \<in> set ?pages \<and>
           renderPageAsImage svc ?doc n = Inr img \<and> performOCR svc img = Inr t \<longrightarrow>
           \<not> includes_str t (pageMarker k)"
  proof
    assume "includes_str (editorText (fst ?R)) (pageMarker k)"
    then have "sublist (pageMarker k)
        ([] @ concat (map (\<lambda>n. pageText n (page_text (pageRecord svc ?doc n)))
          (filter (succeeded svc ?doc) ?pages)))"
      by (simp add: includes_str_def startProcessing_editorText pageBlock_def [abs_def])
    then have "sublist (pageMarker k) [] \<or>
        (\<exists>n \<in> set (filter (succeeded svc ?doc) ?pages).
           n = k \<or> sublist (pageMarker k) (page_text (pageRecord svc ?doc n)))"
      by (rule marker_in_blocks)
    then obtain n where n: "n \<in> set ?pages" "succeeded svc ?doc n"
      and or: "n = k \<or> sublist (pageMarker k) (page_text (pageRecord svc ?doc n))"
      by (auto simp: pageMarker_not_Nil)
    from n(2) obtain img t where
      rt: "renderPageAsImage svc ?doc n = Inr img" "performOCR svc img = Inr t"
      by (auto simp: succeeded_iff)
    then have "page_text (pageRecord svc ?doc n) = t" by (rule recognised_text)
    moreover have "\<not> sublist (pageMarker k) t"
      using clean n(1) rt by (auto simp: includes_str_def)
    ultimately show False using or n(2) assms(2) by auto
  qed
  show ?thesis
    using 1 4 f nums
    by (simp add: startProcessing_editorText startProcessing_visited startProcessing_status)
qed


text \<open>The theorem at the sample run for page 3, whose render call throws.\<close>

theorem failed_page_is_skipped_witness:
  "3 \<in> set (pagesToProcess allConfig (totalPages loadedState))
   \<and> \<not> succeeded sampleServices (pdfDoc loadedState) 3
   \<and> map pageNumber (extractedPages (fst (startProcessing sampleServices allConfig loadedState)))
        = [1, 4]
   \<and> \<not> includes_str (editorText (fst (startProcessing sampleServices allConfig loadedState)))
        (lit ''--- Page 3 ---'')
   \<and> visited (snd (startProcessing sampleServices allConfig loadedState)) = [1, 2, 3, 4]
   \<and> status (fst (startProcessing sampleServices allConfig loadedState)) = COMPLETED"
proof -
  have k: "3 \<in> set (pagesToProcess allConfig (totalPages loadedState))"
    by (simp add: pages_all)
  have clean: "\<forall>n img t. n \<in> set (pagesToProcess allConfig (totalPages loadedState)) \<and>
      renderPageAsImage sampleServices (pdfDoc loadedState) n = Inr img \<and>
      performOCR sampleServices img = Inr t \<longrightarrow> \<not> includes_str t (pageMarker 3)"
  proof (intro allI impI, elim conjE)
    fix n img t
    assume "n \<in> set (pagesToProcess allConfig (totalPages loadedState))"
      and r: "renderPageAsImage sampleServices (pdfDoc loadedState) n = Inr img"
      and o: "performOCR sampleServices img = Inr t"
    then consider "n = 1" | "n = 2" | "n = 3" | "n = 4"
      by (auto simp: pages_all)
    then have "t = lit ''--- Page 2 ---'' \<or> t = lit ''four''"
      using r o by cases (auto simp: sample_outcomes)
    then show "\<not> includes_str t (pageMarker 3)"
      by (auto simp: includes_str_def sample_pageMarkers lit_def sublist_Cons_right)
  qed
  note skipped = failed_page_is_skipped [OF k sample_succeeded(3)]
  have m: "map pageNumber (extractedPages (fst (startProcessing sampleServices allConfig loadedState)))
      = [1, 4]"
    using skipped by (simp add: pages_all sample_succeeded)
  have i: "\<not> includes_str (editorText (fst (startProcessing sampleServices allConfig loadedState)))
      (pageMarker 3)"
    using skipped clean by blast
  have v: "visited (snd (startProcessing sampleServices allConfig loadedState)) = [1, 2, 3, 4]"
    using skipped by (simp add: pages_all)
  have c: "status (fst (startProcessing sampleServices allConfig loadedState)) = COMPLETED"
    using skipped by blast
  show ?thesis
    using k m i v c by (simp add: sample_succeeded sample_pageMarkers)
qed

text \<open>
  C3. After a run, the editor text is the concatenation, in the order of the visited
  sequence (which is strictly ascending), of the blocks of exactly the pages that
  succeeded; the text present before the run does not appear. The block of a page \<open>n\<close>
  whose image is recognised as \<open>txt\<close> is two line feeds, \<open>--- Page n ---\<close>, two line
  feeds, then \<open>txt\<close>; a page succeeds exactly when the renderer returns an image and the
  OCR call on that image returns a text.
\<close>

theorem editor_text_is_concatenation:
  "editorText (fst (startProcessing svc config st)) =
     concat (map (pageBlock svc (pdfDoc st))
       (filter (succeeded svc (pdfDoc st)) (pagesToProcess config (totalPages st))))
   \<and> sorted_wrt (<) (pagesToProcess config (totalPages st))
   \<and> (\<forall>n img txt.
        renderPageAsImage svc (pdfDoc st) n = Inr img \<and> performOCR svc img = Inr txt \<longrightarrow>
        succeeded svc (pdfDoc st) n \<and>
        pageBlock svc (pdfDoc st) n =
          [10, 10] @ lit ''--- Page '' @ toString n @ lit '' ---'' @ [10, 10] @ txt)
   \<and> (\<forall>n. succeeded svc (pdfDoc st) n \<longrightarrow>
        (\<exists>img txt. renderPageAsImage svc (pdfDoc st) n = Inr img \<and> performOCR svc img = Inr txt))"
  by (simp add: startProcessing_editorText sorted_pagesToProcess pageBlock_success
      succeeded_iff [symmetric])
    (auto simp: succeeded_iff)

text \<open>The theorem at the sample run over all pages: pages 1 and 4 succeed.\<close>

theorem editor_text_is_concatenation_witness:
  "renderPageAsImage sampleServices (pdfDoc loadedState) 1 = Inr (lit ''data:image/png;base64,QUJ1'')
   \<and> performOCR sampleServices (lit ''data:image/png;base64,QUJ1'') = Inr (lit ''--- Page 2 ---'')
   \<and> succeeded sampleServices (pdfDoc loadedState) 1
   \<and> pageBlock sampleServices (pdfDoc loadedState) 1 =
        [10, 10] @ lit ''--- Page '' @ toString 1 @ lit '' ---'' @ [10, 10] @ lit ''--- Page 2 ---''
   \<and> editorText (fst (startProcessing sampleServices allConfig loadedState)) =
        [10, 10] @ lit ''--- Page 1 ---'' @ [10, 10] @ lit ''--- Page 2 ---'' @
        [10, 10] @ lit ''--- Page 4 ---'' @ [10, 10] @ lit ''four''"
proof -
  have r: "renderPageAsImage sampleServices (pdfDoc loadedState) 1 =
      Inr (lit ''data:image/png;base64,QUJ1'')"
    by (simp add: sample_defs toString_def string_of_nat.simps lit_def)
  have o: "performOCR sampleServices (lit ''data:image/png;base64,QUJ1'') =
      Inr (lit ''--- Page 2 ---'')"
    by (simp add: sample_defs)
  have e: "editorText (fst (startProcessing sampleServices allConfig loadedState)) =
        [10, 10] @ lit ''--- Page 1 ---'' @ [10, 10] @ lit ''--- Page 2 ---'' @
        [10, 10] @ lit ''--- Page 4 ---'' @ [10, 10] @ lit ''four''"
    using completedState_eq by (simp add: completedState_def)
  from editor_text_is_concatenation [of sampleServices allConfig loadedState] r o e
  show ?thesis by blast
qed

text \<open>
  C4. Every run ends in status COMPLETED, whatever the services return: also when the
  visited sequence is empty, in which case no service is called, nothing is logged and no
  page is extracted, and also when every visited page fails, in which case no page is
  extracted. (The page loop is a terminating recursion, so the run always ends.)
\<close>

theorem run_completes:
  "status (fst (startProcessing svc config st)) = COMPLETED
   \<and> (pagesToProcess config (totalPages st) = [] \<longrightarrow>
        extractedPages (fst (startProcessing svc config st)) = []
        \<and> snd (startProcessing svc config st) = [])
   \<and> ((\<forall>n \<in> set (pagesToProcess config (totalPages st)). \<not> succeeded svc (pdfDoc st) n) \<longrightarrow>
        extractedPages (fst (startProcessing svc config st)) = [])"
proof -
  have "snd (startProcessing svc config st) = []" if "pagesToProcess config (totalPages st) = []"
    using that by (simp add: startProcessing_def Let_def pageLoop_Nil)
  moreover have "filter (succeeded svc (pdfDoc st)) (pagesToProcess config (totalPages st)) = []"
    if "\<forall>n \<in> set (pagesToProcess config (totalPages st)). \<not> succeeded svc (pdfDoc st) n"
    using that by (simp add: filter_empty_conv)
  ultimately show ?thesis
    by (simp add: startProcessing_status startProcessing_extractedPages)
qed

text \<open>
  The theorem at the sample document: the range 3 to 2 is empty, and in the range 2 to 3
  both pages fail.
\<close>

theorem run_completes_witness:
  "pagesToProcess emptyRange (totalPages loadedState) = []
   \<and> status (fst (startProcessing sampleServices emptyRange loadedState)) = COMPLETED
   \<and> extractedPages (fst (startProcessing sampleServices emptyRange loadedState)) = []
   \<and> snd (startProcessing sampleServices emptyRange loadedState) = []
   \<and> pagesToProcess failingRange (totalPages loadedState) = [2, 3]
   \<and> \<not> succeeded sampleServices (pdfDoc loadedState) 2
   \<and> \<not> succeeded sampleServices (pdfDoc loadedState) 3
   \<and> status (fst (startProcessing sampleServices failingRange loadedState)) = COMPLETED
   \<and> extractedPages (fst (startProcessing sampleServices failingRange loadedState)) = []"
proof -
  have e: "pagesToProcess emptyRange (totalPages loadedState) = []"
    by (simp add: emptyRange_def pagesToProcess_def push_range.simps)
  have f: "pagesToProcess failingRange (totalPages loadedState) = [2, 3]"
    by (simp add: failingRange_def pagesToProcess_def push_range.simps)
  have n: "\<not> succeeded sampleServices (pdfDoc loadedState) 2"
    "\<not> succeeded sampleServices (pdfDoc loadedState) 3"
    by (simp_all add: succeeded_def pageOutcome_def sample_defs toString_def
        string_of_nat.simps lit_def)
  from run_completes [of sampleServices emptyRange loadedState]
    run_completes [of sampleServices failingRange loadedState] e f n
  show ?thesis by simp
qed

text \<open>
  C5. When every code unit of the editor text is white space (in particular when the text
  is empty), the trimmed text is empty and \<open>handleAnalyze\<close> does nothing: the state,
  with the stored analysis result, is returned as it was, and no call to the analysis
  service (indeed no effect at all) is issued.
\<close>

theorem analyze_blank_is_noop:
  "\<forall>c \<in> set (editorText st). isWhiteSpace c \<Longrightarrow>
     trim (editorText st) = []
     \<and> handleAnalyze svc st = (st, [])
     \<and> analysis (fst (handleAnalyze svc st)) = analysis st
     \<and> (\<forall>t. AnalyzeCall t \<notin> set (snd (handleAnalyze svc st)))"
  by (simp add: handleAnalyze_def trim_eq_Nil_iff)

text \<open>
  The theorem at a state whose text is a space, a line feed and a tab, and which holds an
  analysis result.
\<close>

theorem analyze_blank_is_noop_witness:
  "editorText blankState = [32, 10, 9]
   \<and> isWhiteSpace 32 \<and> isWhiteSpace 10 \<and> isWhiteSpace 9
   \<and> handleAnalyze sampleServices blankState = (blankState, [])
   \<and> analysis (fst (handleAnalyze sampleServices blankState)) = Some sampleAnalysis"
proof -
  have t: "\<forall>c \<in> set (editorText blankState). isWhiteSpace c"
    by (simp add: blankState_def isWhiteSpace_def)
  from analyze_blank_is_noop [OF t, of sampleServices] t show ?thesis
    by (simp add: blankState_def)
qed

text \<open>
  C6. For the extracted pages a run leaves in the state, whatever the rest of the state:
  when \<open>handleDownloadImages\<close> exports (\<open>generateAsync\<close> resolves and \<open>saveAs\<close> is
  called), the exported blob is the encoder's serialisation of a member list with exactly
  one member for each extracted page, in page order and under pairwise different names;
  the member of a page is named \<open>page_{pageNumber}.jpg\<close> and holds the bytes the encoder
  decodes from the base64 data of the page, which is the part of \<open>imageUrl\<close> after the
  comma: for a data URL \<open>meta,payload\<close> the payload, whatever media type \<open>meta\<close> names.
  When the encoder refuses the data of some page the awaited promise rejects and nothing
  is exported; when it accepts the data of every page, the handler exports exactly when
  the serialisation succeeds.
\<close>

theorem archive_has_one_member_per_page:
  assumes "pages = extractedPages (fst (startProcessing svc config st0))"
  shows
    "(\<forall>content fname.
        handleDownloadImages arch (st\<lparr>extractedPages := pages\<rparr>) = Inr (content, fname) \<longrightarrow>
        fname = baseName (currentFile st) @ lit ''_images.zip'' \<and>
        (\<exists>members.
           encodeBlob arch members = Inr content \<and>
           distinct (map fst members) \<and>
           list_all2 (\<lambda>page (name, b).
               name = lit ''page_'' @ toString (pageNumber page) @ lit ''.jpg'' \<and>
               base64Decode arch (at_index (split_str 44 (imageUrl page)) 1) = Inr b)
             pages members))
     \<and> ((\<exists>page \<in> set pages. \<exists>err.
            base64Decode arch (at_index (split_str 44 (imageUrl page)) 1) = Inl err) \<longrightarrow>
          (\<exists>err. handleDownloadImages arch (st\<lparr>extractedPages := pages\<rparr>) = Inl err))
     \<and> ((\<forall>page \<in> set pages. \<exists>b.
            base64Decode arch (at_index (split_str 44 (imageUrl page)) 1) = Inr b) \<longrightarrow>
          (\<exists>members.
             list_all2 (\<lambda>page (name, b).
                 name = lit ''page_'' @ toString (pageNumber page) @ lit ''.jpg'' \<and>
                 base64Decode arch (at_index (split_str 44 (imageUrl page)) 1) = Inr b)
               pages members \<and>
             handleDownloadImages arch (st\<lparr>extractedPages := pages\<rparr>) =
               (case encodeBlob arch members of
                  Inl err \<Rightarrow> Inl err
                | Inr content \<Rightarrow> Inr (content, baseName (currentFile st) @ lit ''_images.zip''))))
     \<and> (\<forall>page \<in> set pages. \<forall>meta payload.
            imageUrl page = meta @ [44] @ payload \<and> 44 \<notin> set meta \<and> 44 \<notin> set payload \<longrightarrow>
            at_index (split_str 44 (imageUrl page)) 1 = Some payload)"
proof -
  let ?st = "st\<lparr>extractedPages := pages\<rparr>"
  let ?name = "\<lambda>page. lit ''page_'' @ toString (pageNumber page) @ lit ''.jpg''"
  let ?R = "\<lambda>page (name, b). name = ?name page \<and>
      base64Decode arch (at_index (split_str 44 (imageUrl page)) 1) = Inr b"
  let ?fname = "baseName (currentFile st) @ lit ''_images.zip''"
  have d: "distinct (map pageNumber pages)"
    unfolding assms by (rule startProcessing_distinct)
  then have "distinct (map pageNumber (extractedPages ?st))" by simp
  from download_members [OF this, of arch]
  have dl: "handleDownloadImages arch ?st =
     (case decodeMembers arch (map pageEntry pages) of
        Inl err \<Rightarrow> Inl err
      | Inr members \<Rightarrow>
          (case encodeBlob arch members of
             Inl err \<Rightarrow> Inl err
           | Inr content \<Rightarrow> Inr (content, ?fname)))"
    by (simp split: sum.splits)
  have names: "distinct (map fst members)" if "list_all2 ?R pages members" for members
  proof -
    have "map fst members = map ?name pages"
      using that by (rule member_names)
    moreover have "distinct (map ?name pages)"
      using d by (auto simp: distinct_map inj_on_def memberName_def [symmetric]
          dest: memberName_inj)
    ultimately show ?thesis by simp
  qed
  have 1: "fname = ?fname \<and>
      (\<exists>members. encodeBlob arch members = Inr content \<and> distinct (map fst members) \<and>
         list_all2 ?R pages members)"
    if "handleDownloadImages arch ?st = Inr (content, fname)" for content fname
  proof -
    from that obtain members where m: "decodeMembers arch (map pageEntry pages) = Inr members"
      and e: "encodeBlob arch members = Inr content" and f: "fname = ?fname"
      unfolding dl by (auto split: sum.splits)
    from m have "list_all2 ?R pages members" by (rule members_of_pages)
    then show ?thesis using e f names by blast
  qed
  have 2: "\<exists>err. handleDownloadImages arch ?st = Inl err"
    if "\<exists>page \<in> set pages. \<exists>err.
        base64Decode arch (at_index (split_str 44 (imageUrl page)) 1) = Inl err"
  proof -
    from that obtain page err where p: "page \<in> set pages"
      and "base64Decode arch (at_index (split_str 44 (imageUrl page)) 1) = Inl err"
      by blast
    then have "entryBytes arch (snd (pageEntry page)) = Inl err"
      by (simp add: entryBytes_pageEntry)
    moreover have "(fst (pageEntry page), snd (pageEntry page)) \<in> set (map pageEntry pages)"
      using p by simp
    ultimately obtain err' where "decodeMembers arch (map pageEntry pages) = Inl err'"
      using decodeMembers_refused by blast
    then show ?thesis by (simp add: dl)
  qed
  have 3: "\<exists>members. list_all2 ?R pages members \<and>
      handleDownloadImages arch ?st =
        (case encodeBlob arch members of
           Inl err \<Rightarrow> Inl err
         | Inr content \<Rightarrow> Inr (content, ?fname))"
    if "\<forall>page \<in> set pages. \<exists>b.
        base64Decode arch (at_index (split_str 44 (imageUrl page)) 1) = Inr b"
  proof -
    have "\<forall>f \<in> set (map pageEntry pages). \<exists>b. entryBytes arch (snd f) = Inr b"
      using that by (simp add: entryBytes_pageEntry)
    then obtain members where m: "decodeMembers arch (map pageEntry pages) = Inr members"
      using decodeMembers_accepted by blast
    then have "list_all2 ?R pages members" by (rule members_of_pages)
    then show ?thesis using m by (auto simp: dl)
  qed
  have 4: "\<forall>page \<in> set pages. \<forall>meta payload.
      imageUrl page = meta @ [44] @ payload \<and> 44 \<notin> set meta \<and> 44 \<notin> set payload \<longrightarrow>
      at_index (split_str 44 (imageUrl page)) 1 = Some payload"
    by (auto simp: split_str_one_sep at_index_def)
  from 1 2 3 4 show ?thesis by blast
qed

text \<open>
  The theorem at the sample run: two pages rendered as PNG data URLs are exported as
  \<open>page_1.jpg\<close> and \<open>page_4.jpg\<close> with the decoded bytes. With \<open>truncatedServices\<close> the
  payload is refused and the handler ends without exporting.
\<close>

theorem archive_has_one_member_per_page_witness:
  "handleDownloadImages sampleArchiver completedState =
     Inr ([65, 66, 117, 65, 66, 120], lit ''scan_images.zip'')
   \<and> (\<exists>members.
        encodeBlob sampleArchiver members = Inr [65, 66, 117, 65, 66, 120] \<and>
        distinct (map fst members) \<and>
        list_all2 (\<lambda>page (name, b).
            name = lit ''page_'' @ toString (pageNumber page) @ lit ''.jpg'' \<and>
            base64Decode sampleArchiver (at_index (split_str 44 (imageUrl page)) 1) = Inr b)
          (extractedPages completedState) members)
   \<and> list_all2 (\<lambda>page (name, b).
            name = lit ''page_'' @ toString (pageNumber page) @ lit ''.jpg'' \<and>
            base64Decode sampleArchiver (at_index (split_str 44 (imageUrl page)) 1) = Inr b)
        (extractedPages completedState)
        [(lit ''page_1.jpg'', [65, 66, 117]), (lit ''page_4.jpg'', [65, 66, 120])]
   \<and> base64Decode sampleArchiver
        (at_index (split_str 44 (lit ''data:image/png;base64,QQ1'')) 1) =
        Inl (Thrown (lit ''Invalid base64 input''))
   \<and> (\<exists>err. handleDownloadImages sampleArchiver
        (completedState\<lparr>extractedPages :=
           extractedPages (fst (startProcessing truncatedServices singleConfig loadedState))\<rparr>) =
        Inl err)"
proof -
  let ?run = "extractedPages (fst (startProcessing sampleServices allConfig loadedState))"
  let ?bad = "extractedPages (fst (startProcessing truncatedServices singleConfig loadedState))"
  have same: "completedState\<lparr>extractedPages := extractedPages completedState\<rparr> = completedState"
    by simp
  have run: "?run = extractedPages completedState"
    by (simp add: completedState_def)
  note good = archive_has_one_member_per_page
    [OF refl, where svc = sampleServices and config = allConfig and ?st0.0 = loadedState
      and arch = sampleArchiver and st = completedState]
  note bad = archive_has_one_member_per_page
    [OF refl, where svc = truncatedServices and config = singleConfig and ?st0.0 = loadedState
      and arch = sampleArchiver and st = completedState]
  have 1: "\<exists>members.
      encodeBlob sampleArchiver members = Inr [65, 66, 117, 65, 66, 120] \<and>
      distinct (map fst members) \<and>
      list_all2 (\<lambda>page (name, b).
          name = lit ''page_'' @ toString (pageNumber page) @ lit ''.jpg'' \<and>
          base64Decode sampleArchiver (at_index (split_str 44 (imageUrl page)) 1) = Inr b)
        (extractedPages completedState) members"
    using good sample_download unfolding run same by blast
  have 2: "list_all2 (\<lambda>page (name, b).
        name = lit ''page_'' @ toString (pageNumber page) @ lit ''.jpg'' \<and>
        base64Decode sampleArchiver (at_index (split_str 44 (imageUrl page)) 1) = Inr b)
      (extractedPages completedState)
      [(lit ''page_1.jpg'', [65, 66, 117]), (lit ''page_4.jpg'', [65, 66, 120])]"
    by (simp add: completedState_eq sampleArchiver_def toString_def string_of_nat.simps
        at_index_def lit_def)
  have 3: "base64Decode sampleArchiver
      (at_index (split_str 44 (lit ''data:image/png;base64,QQ1'')) 1) =
      Inl (Thrown (lit ''Invalid base64 input''))"
    by (simp add: sampleArchiver_def at_index_def lit_def)
  have "\<exists>page \<in> set ?bad. \<exists>err.
      base64Decode sampleArchiver (at_index (split_str 44 (imageUrl page)) 1) = Inl err"
    using 3 by (simp add: truncated_pages)
  then have 4: "\<exists>err. handleDownloadImages sampleArchiver
      (completedState\<lparr>extractedPages := ?bad\<rparr>) = Inl err"
    using bad by blast
  from sample_download 1 2 3 4 show ?thesis by blast
qed

text \<open>
  C7, as stated, fails: after the sample run the counters are 4 of 4, and \<open>handleReset\<close>
  leaves them there, not at their initial 0 of 0.
\<close>

theorem reset_keeps_progress_counterexample:
  "status completedState = COMPLETED
   \<and> processingProgress (handleReset completedState) = \<lparr>current = 4, total = 4\<rparr>
   \<and> processingProgress initialState = \<lparr>current = 0, total = 0\<rparr>
   \<and> processingProgress (handleReset completedState) \<noteq> processingProgress initialState"
  by (simp add: completedState_eq handleReset_def initialState_def)

text \<open>
  C7, amended. \<open>handleReset\<close> empties the extracted-page sequence and the editor text,
  unsets the analysis result, the current file and the document handle, and sets the
  status to IDLE; it writes no other cell, so the progress counters keep the values of
  the finished run. This holds from every state, COMPLETED included.
\<close>

theorem reset_clears_all_but_progress:
  "handleReset st =
     st\<lparr>currentFile := None, pdfDoc := None, extractedPages := [], editorText := [],
        analysis := None, status := IDLE\<rparr>
   \<and> extractedPages (handleReset st) = []
   \<and> editorText (handleReset st) = []
   \<and> analysis (handleReset st) = None
   \<and> status (handleReset st) = IDLE
   \<and> currentFile (handleReset st) = None
   \<and> pdfDoc (handleReset st) = None
   \<and> processingProgress (handleReset st) = processingProgress st"
  by (simp add: handleReset_def)

text \<open>
  C8, as stated, fails: in the sample range 2 to 3 both pages fail, and after the last
  page the counters are 0 of 2; in the run over all pages, after the page at index 1
  (page 2, which fails) \<open>current\<close> is 1, not 2.
\<close>

theorem progress_stalls_counterexample:
  "visited (snd (startProcessing sampleServices failingRange loadedState)) = [2, 3]
   \<and> processingProgress (fst (startProcessing sampleServices failingRange loadedState)) =
        \<lparr>current = 0, total = 2\<rparr>
   \<and> current (processingProgress (fst (processPage sampleServices (pdfDoc loadedState)
        [1, 2, 3, 4] 1
        (processPage sampleServices (pdfDoc loadedState) [1, 2, 3, 4] 0
          (startProcessing_begin allConfig loadedState, []))))) \<noteq> 1 + 1"
  by (simp add: sample_defs run_defs)

text \<open>
  C8, amended. For the page at index \<open>i\<close> of the visited sequence: if its render and OCR
  calls both succeed, the counters are \<open>current = i + 1\<close> and \<open>total\<close> the length of the
  sequence right after it; if one of them fails, the counters stay as they were before
  the page. After the whole run \<open>total\<close> is the length of the sequence and \<open>current\<close> is the
  length of the sequence without its trailing failed pages (1 + the index of the last
  page that succeeded, or 0).
\<close>

theorem progress_advances_on_success:
  assumes "pages = pagesToProcess config (totalPages st)" and "doc = pdfDoc st"
    and "i < length pages"
  shows "(succeeded svc doc (pages ! i) \<longrightarrow>
        processingProgress (fst (processPage svc doc pages i s)) =
          \<lparr>current = i + 1, total = length pages\<rparr>)
     \<and> (\<not> succeeded svc doc (pages ! i) \<longrightarrow>
        processingProgress (fst (processPage svc doc pages i s)) = processingProgress (fst s))
     \<and> processingProgress (fst (startProcessing svc config st)) =
          \<lparr>current = length (dropWhile (\<lambda>n. \<not> succeeded svc doc n) (rev pages)),
           total = length pages\<rparr>"
  using assms
  by (simp add: processPage_progress startProcessing_def Let_def split_beta pageLoop_progress
      startProcessing_begin_def)

text \<open>The theorem at the sample run, for index 0 (page 1) and index 1 (page 2).\<close>

theorem progress_advances_on_success_witness:
  "succeeded sampleServices (pdfDoc loadedState) ([1, 2, 3, 4] ! 0)
   \<and> processingProgress (fst (processPage sampleServices (pdfDoc loadedState) [1, 2, 3, 4] 0
        (startProcessing_begin allConfig loadedState, []))) = \<lparr>current = 1, total = 4\<rparr>
   \<and> \<not> succeeded sampleServices (pdfDoc loadedState) ([1, 2, 3, 4] ! 1)
   \<and> processingProgress (fst (processPage sampleServices (pdfDoc loadedState) [1, 2, 3, 4] 1
        (processPage sampleServices (pdfDoc loadedState) [1, 2, 3, 4] 0
          (startProcessing_begin allConfig loadedState, [])))) = \<lparr>current = 1, total = 4\<rparr>
   \<and> processingProgress (fst (startProcessing sampleServices allConfig loadedState)) =
        \<lparr>current = 4, total = 4\<rparr>"
proof -
  let ?pages = "[1, 2, 3, 4] :: int list"
  let ?s0 = "(startProcessing_begin allConfig loadedState, [] :: Effect list)"
  let ?s1 = "processPage sampleServices (pdfDoc loadedState) ?pages 0 ?s0"
  have p: "?pages = pagesToProcess allConfig (totalPages loadedState)"
    by (simp add: pages_all)
  have d: "pdfDoc loadedState = pdfDoc loadedState" ..
  from progress_advances_on_success [OF p d, where i = 0 and svc = sampleServices and s = ?s0]
    progress_advances_on_success [OF p d, where i = 1 and svc = sampleServices and s = ?s1]
  show ?thesis
    by (simp add: sample_succeeded)
qed

text \<open>
  C9. The claim holds of the extracted pages and of the editor text: the uploader is shown
  only in status IDLE, which is reached from the initial state and from \<open>handleReset\<close>,
  and \<open>handleFileSelect\<close> writes neither (\<open>handleFileSelect_frame\<close>,
  \<open>file_select_first\<close>, \<open>file_select_after_reset\<close>). It fails for the analysis result in
  the following session: a document is loaded and processed, the analysis tab is opened
  (the request is in flight), the reset button is pressed, the request then resolves, and a
  file is selected. \<open>handleReset\<close> does not withdraw the request in flight, so its late
  \<open>setAnalysis\<close> stores the result of the earlier document after the reset, and it is
  still stored when the new file is selected.
\<close>

theorem file_select_after_late_analysis:
  "status completedState = COMPLETED
   \<and> trim (editorText completedState) \<noteq> []
   \<and> analyzeText sampleServices (editorText completedState) = Inr sampleAnalysis
   \<and> staleState =
       fst (handleAnalyze_settle (Inr sampleAnalysis)
             (handleReset (handleAnalyze_begin completedState)))
   \<and> status staleState = IDLE
   \<and> showConfig staleState = False
   \<and> extractedPages staleState = []
   \<and> editorText staleState = []
   \<and> analysis staleState = Some sampleAnalysis
   \<and> analysis initialState = None
   \<and> analysis (fst (handleFileSelect sampleServices sampleFile staleState)) = Some sampleAnalysis"
  by (simp add: pending_analysis_request)
    (simp add: staleState_def completedState_eq handleAnalyze_settle_def handleAnalyze_begin_def
      handleReset_def handleFileSelect_def sampleServices_def initialState_def)

text \<open>
  C10. \<open>startProcessing\<close> empties the extracted-page sequence and the editor text before
  the page loop starts and does not write the analysis result: the state the loop starts
  from has no page, no text and the old analysis result; after the run the pages and the
  text are those of this run alone, and the analysis result is still the old one.
\<close>

theorem start_clears_pages_and_text_keeps_analysis:
  "extractedPages (startProcessing_begin config st) = []
   \<and> editorText (startProcessing_begin config st) = []
   \<and> analysis (startProcessing_begin config st) = analysis st
   \<and> startProcessing svc config st =
       (let pages = pagesToProcess config (totalPages st);
            (st', tr) = pageLoop svc (pdfDoc st) pages 0 (startProcessing_begin config st, [])
        in (st'\<lparr>status := COMPLETED\<rparr>, tr))
   \<and> extractedPages (fst (startProcessing svc config st)) =
       map (pageRecord svc (pdfDoc st))
         (filter (succeeded svc (pdfDoc st)) (pagesToProcess config (totalPages st)))
   \<and> editorText (fst (startProcessing svc config st)) =
       concat (map (pageBlock svc (pdfDoc st))
         (filter (succeeded svc (pdfDoc st)) (pagesToProcess config (totalPages st))))
   \<and> analysis (fst (startProcessing svc config st)) = analysis st"
  by (simp add: startProcessing_extractedPages startProcessing_editorText
      startProcessing_analysis)
    (simp add: startProcessing_begin_def startProcessing_def)

text \<open>
  An instance: a run started with an analysis result in store ends with two extracted
  pages and that same analysis result.
\<close>

lemma stale_analysis_coexists:
  "analysis (fst (startProcessing sampleServices allConfig
       (loadedState\<lparr>analysis := Some sampleAnalysis\<rparr>))) = Some sampleAnalysis
   \<and> length (extractedPages (fst (startProcessing sampleServices allConfig
       (loadedState\<lparr>analysis := Some sampleAnalysis\<rparr>)))) = 2"
  by (simp add: startProcessing_analysis)
    (simp add: sample_defs run_defs pageText_def)

end
